theory Spec2Isabelle
  imports Complex_Main
begin

section \<open>Conditional.js: the boolean folds\<close>

text \<open>
  The conditions object maps names to JavaScript values. \<open>lazySet\<close> stores
  \<open>value || false\<close>, so a stored condition need not be a boolean; the folds use
  JavaScript's \<open>||\<close> and \<open>&&\<close>, which return one of their operands.
\<close>

datatype jsval = JBool bool | JNum int | JStr string | JNull | JUndefined | JObject

fun truthy :: "jsval \<Rightarrow> bool" where
  "truthy (JBool b) = b"
| "truthy (JNum n) = (n \<noteq> 0)"
| "truthy (JStr s) = (s \<noteq> [])"
| "truthy JNull = False"
| "truthy JUndefined = False"
| "truthy JObject = True"

definition js_or :: "jsval \<Rightarrow> jsval \<Rightarrow> jsval" where
  "js_or a b = (if truthy a then a else b)"

definition js_and :: "jsval \<Rightarrow> jsval \<Rightarrow> jsval" where
  "js_and a b = (if truthy a then b else a)"

text \<open>An object literal as its properties in insertion order (the order of \<open>Object.keys\<close>).\<close>

type_synonym jsobject = "(string \<times> jsval) list"

definition object_keys :: "jsobject \<Rightarrow> string list" where
  "object_keys conds = remdups (map fst conds)"

definition object_get :: "jsobject \<Rightarrow> string \<Rightarrow> jsval" where
  "object_get conds key = (case map_of conds key of None \<Rightarrow> JUndefined | Some v \<Rightarrow> v)"

definition cond_values :: "jsobject \<Rightarrow> jsval list" where
  "cond_values conds = map (\<lambda>key. object_get conds key) (object_keys conds)"

definition Conditional_and :: "jsobject \<Rightarrow> jsobject \<Rightarrow> jsval" where
  "Conditional_and conds data = foldl (\<lambda>a b. js_and a b) (JBool True) (cond_values conds)"

definition Conditional_or :: "jsobject \<Rightarrow> jsobject \<Rightarrow> jsval" where
  "Conditional_or conds data = foldl (\<lambda>a b. js_or a b) (JBool True) (cond_values conds)"

section \<open>ConveyorBelt.js: the throttled queue\<close>

text \<open>
  A queued item is a zero-argument function. Queued functions are opaque: \<open>Fn a\<close> is the
  function the caller added under the name \<open>a\<close>, \<open>Noop\<close> is the empty function
  \<open>function () {}\<close> that \<open>decimate\<close> writes, and \<open>Null\<close> is the \<open>null\<close> mark
  \<open>decimate\<close> leaves while it scans. Calling a queued function is recorded in
  \<open>executed\<close>; a queued function is assumed not to call back into the belt and not to throw.
\<close>

datatype 'a slot = Fn 'a | Noop | Null

datatype speed = Immediate | Msec nat

datatype error = TypeError

text \<open>
  The belt's own fields are \<open>queue\<close>, \<open>speed\<close>, \<open>timerid\<close> (\<open>None\<close> is \<open>null\<close>)
  and \<open>active\<close>. The host scheduler is part of the state: \<open>intervals\<close> are the handles of
  the recurring timers this belt has set and not cleared, \<open>next_handle\<close> is the handle
  the next \<open>setInterval\<close> returns (the host issues positive integers). \<open>executed\<close> is
  the sequence of calls made so far, oldest first.
\<close>

record 'a belt =
  queue :: "'a slot list"
  speed :: speed
  timerid :: "nat option"
  active :: bool
  intervals :: "nat list"
  next_handle :: nat
  executed :: "'a slot list"

definition setInterval :: "'a belt \<Rightarrow> nat \<times> 'a belt" where
  "setInterval b =
     (next_handle b,
      b\<lparr>intervals := next_handle b # intervals b, next_handle := Suc (next_handle b)\<rparr>)"

definition clearInterval :: "nat option \<Rightarrow> 'a belt \<Rightarrow> 'a belt" where
  "clearInterval h b =
     (case h of None \<Rightarrow> b | Some x \<Rightarrow> b\<lparr>intervals := removeAll x (intervals b)\<rparr>)"

text \<open>\<open>if (this.timerid)\<close>: a handle is truthy unless it is \<open>null\<close> or \<open>0\<close>.\<close>

definition truthy_id :: "nat option \<Rightarrow> bool" where
  "truthy_id h = (case h of None \<Rightarrow> False | Some x \<Rightarrow> x \<noteq> 0)"

text \<open>\<open>fn()\<close>: calling \<open>null\<close> throws a TypeError.\<close>

fun call :: "'a slot \<Rightarrow> 'a belt \<Rightarrow> error + 'a belt" where
  "call Null b = Inl TypeError"
| "call f b = Inr (b\<lparr>executed := executed b @ [f]\<rparr>)"

text \<open>
  \<open>var fn = this.queue.pop(); fn();\<close> On an empty queue \<open>pop\<close> returns \<open>undefined\<close> and
  leaves the queue as it is; calling \<open>undefined\<close> throws.
\<close>

definition pop_call :: "'a belt \<Rightarrow> error + 'a belt" where
  "pop_call b =
     (if queue b = [] then Inl TypeError
      else call (last (queue b)) (b\<lparr>queue := butlast (queue b)\<rparr>))"

text \<open>The loop of \<open>burn\<close>: \<open>for (count = limit - 1; count >= 0; count--)\<close>.\<close>

function burn_loop :: "int \<Rightarrow> 'a belt \<Rightarrow> error + 'a belt" where
  "burn_loop count b =
     (if count \<ge> 0 then
        (case pop_call b of Inl e \<Rightarrow> Inl e | Inr b' \<Rightarrow> burn_loop (count - 1) b')
      else Inr b)"
  by pat_completeness auto
termination
  by (relation "measure (\<lambda>(count, b). nat (count + 1))") auto

declare burn_loop.simps [simp del]

definition burn :: "int option \<Rightarrow> 'a belt \<Rightarrow> error + 'a belt" where
  "burn amount b =
     (let amount' = (case amount of None \<Rightarrow> int (length (queue b)) | Some n \<Rightarrow> n);
          limit = min amount' (int (length (queue b)))
      in burn_loop (limit - 1) b)"

definition process :: "'a belt \<Rightarrow> error + 'a belt" where
  "process b =
     (if speed b \<noteq> Immediate \<and> length (queue b) = 0
      then Inr ((clearInterval (timerid b) b)\<lparr>timerid := None\<rparr>)
      else pop_call b)"

definition stop :: "'a belt \<Rightarrow> 'a belt" where
  "stop b =
     (let b1 = b\<lparr>active := False\<rparr>
      in if truthy_id (timerid b1)
         then (clearInterval (timerid b1) b1)\<lparr>timerid := None\<rparr>
         else b1)"

definition start :: "speed option \<Rightarrow> 'a belt \<Rightarrow> error + 'a belt" where
  "start sp b =
     (let b1 = (stop b)\<lparr>active := True\<rparr>;
          b2 = (case sp of None \<Rightarrow> b1 | Some s \<Rightarrow> b1\<lparr>speed := s\<rparr>)
      in if speed b2 = Immediate
         then burn None (b2\<lparr>timerid := None\<rparr>)
         else (case setInterval b2 of (h, b3) \<Rightarrow> Inr (b3\<lparr>timerid := Some h\<rparr>)))"

definition add :: "'a \<Rightarrow> 'a belt \<Rightarrow> error + 'a belt" where
  "add fn b =
     (let b1 = b\<lparr>queue := queue b @ [Fn fn]\<rparr>
      in if \<not> active b1 then Inr b1
         else if speed b1 = Immediate then burn None b1
         else if \<not> truthy_id (timerid b1)
           then (case setInterval b1 of (h, b2) \<Rightarrow> Inr (b2\<lparr>timerid := Some h\<rparr>))
         else Inr b1)"

text \<open>\<open>new ConveyorBelt.ConveyorBelt(speed)\<close>, on a host that has issued no handle yet.\<close>

definition ConveyorBelt :: "speed \<Rightarrow> error + 'a belt" where
  "ConveyorBelt sp =
     start None \<lparr>queue = [], speed = sp, timerid = None, active = False,
                 intervals = [], next_handle = 1, executed = []\<rparr>"

text \<open>\<open>this.queue.slice(0, amount)\<close>: a negative end counts from the end of the array.\<close>

definition slice0 :: "'b list \<Rightarrow> int \<Rightarrow> 'b list" where
  "slice0 xs n =
     (if n < 0 then take (nat (int (length xs) + n)) xs else take (nat n) xs)"

definition flush :: "int option \<Rightarrow> 'a belt \<Rightarrow> 'a belt" where
  "flush amount b =
     (case amount of None \<Rightarrow> b\<lparr>queue := []\<rparr>
      | Some n \<Rightarrow> b\<lparr>queue := slice0 (queue b) n\<rparr>)"

subsection \<open>decimate\<close>

text \<open>
  Modelled from the spec: \<open>Utils.cutoff\<close> is not among the sources; the spec says the
  factor is "clamped to [0,1]".
\<close>

definition cutoff :: "real \<Rightarrow> real \<Rightarrow> real \<Rightarrow> real" where
  "cutoff x lo hi = max lo (min hi x)"

text \<open>\<open>Math.round\<close> rounds half up. The factor is a real number, not a float.\<close>

definition math_round :: "real \<Rightarrow> int" where
  "math_round x = \<lfloor>x + 1 / 2\<rfloor>"

text \<open>\<open>if (this.queue[i])\<close>: a function is truthy, \<open>null\<close> is not.\<close>

definition slot_truthy :: "'a slot \<Rightarrow> bool" where
  "slot_truthy s = (s \<noteq> Null)"

text \<open>
  The scan \<open>while (reduction > 0) { ... }\<close>. It need not return, so its result is an
  option: \<open>None\<close> is a scan that runs forever. The arguments are the loop's variables:
  the queue, \<open>reduction\<close>, \<open>increment\<close>, \<open>i\<close> and \<open>loop\<close>.
\<close>

partial_function (option) decimate_loop ::
  "'a slot list \<Rightarrow> nat \<Rightarrow> nat \<Rightarrow> nat \<Rightarrow> nat \<Rightarrow> 'a slot list option" where
  "decimate_loop q reduction increment i loop =
     (if reduction > 0 then
        (if (i + increment) mod length q = length q - 1
         then decimate_loop q reduction increment ((i + increment) mod length q) loop
         else
           decimate_loop
             (if slot_truthy (q ! ((i + increment) mod length q))
              then q[(i + increment) mod length q := Null] else q)
             (if slot_truthy (q ! ((i + increment) mod length q))
              then reduction - 1 else reduction)
             (if Suc loop mod length q = 0
              then (if increment > 1 then increment - 1 else 1) else increment)
             ((i + increment) mod length q)
             (Suc loop))
      else Some q)"

declare decimate_loop.simps [code]

text \<open>
  The clean-up \<open>for (i = length - 2; i >= 0; i--)\<close>: \<open>cleanup_loop (Suc i)\<close> handles
  index \<open>i\<close> and goes on below it.
\<close>

primrec cleanup_loop :: "nat \<Rightarrow> 'a slot list \<Rightarrow> 'a slot list" where
  "cleanup_loop 0 q = q"
| "cleanup_loop (Suc i) q = cleanup_loop i (if q ! i = Null then q[i := Noop] else q)"

text \<open>
  The body of \<open>decimate\<close> from \<open>var increment\<close> on. With \<open>reduction = 0\<close> the source's
  \<open>increment\<close> is \<open>Infinity\<close> and the scan is not entered; the model's \<open>div\<close> gives
  \<open>0\<close> there, which the scan does not read either.
\<close>

definition decimate_by :: "nat \<Rightarrow> 'a slot list \<Rightarrow> 'a slot list option" where
  "decimate_by reduction q =
     (case decimate_loop q reduction (length q div reduction) 0 0 of
        None \<Rightarrow> None
      | Some q' \<Rightarrow> Some (cleanup_loop (length q' - 1) q'))"

definition decimate_queue :: "real \<Rightarrow> 'a slot list \<Rightarrow> 'a slot list option" where
  "decimate_queue factor q =
     (if length q \<le> 1 then Some q
      else decimate_by (nat (math_round (real (length q) * cutoff factor 0 1))) q)"

definition decimate :: "real \<Rightarrow> 'a belt \<Rightarrow> 'a belt option" where
  "decimate factor b =
     (case decimate_queue factor (queue b) of
        None \<Rightarrow> None
      | Some q' \<Rightarrow> Some (b\<lparr>queue := q'\<rparr>))"

text \<open>
  The slots the scan can still mark: every index but the last whose slot is truthy.
\<close>

definition markable :: "'a slot list \<Rightarrow> nat set" where
  "markable q = {j. j < length q - 1 \<and> slot_truthy (q ! j)}"

text \<open>
  For the termination of the scan: \<open>next_markable q i\<close> is the number of unit steps
  from \<open>i\<close> to the next slot the scan can mark, \<open>scan_inv\<close> is what holds of the
  loop's variables throughout, and \<open>scan_order\<close> orders the loop's states by
  \<open>reduction\<close>, then the stride, then the steps left to the stride's next decrement
  (or to the next markable slot once the stride is \<open>1\<close>), then whether \<open>i\<close> is on the
  protected slot.
\<close>

definition next_markable :: "'a slot list \<Rightarrow> nat \<Rightarrow> nat" where
  "next_markable q i = (LEAST d. 1 \<le> d \<and> (i + d) mod length q \<in> markable q)"

definition scan_inv :: "'a slot list \<Rightarrow> nat \<Rightarrow> nat \<Rightarrow> nat \<Rightarrow> bool" where
  "scan_inv q r inc i =
     (2 \<le> length q \<and> 1 \<le> inc \<and> inc \<le> length q \<and> i < length q \<and>
      (inc = length q \<longrightarrow> i \<noteq> length q - 1) \<and> r \<le> card (markable q))"

fun scan_measure :: "'a slot list \<times> nat \<times> nat \<times> nat \<times> nat \<Rightarrow> nat \<times> nat \<times> nat \<times> nat" where
  "scan_measure (q, r, inc, i, l) =
     (r, inc,
      (if inc = 1 then next_markable q i else length q - 1 - l mod length q),
      (if i = length q - 1 then 0 else 1))"

definition scan_order ::
  "(('a slot list \<times> nat \<times> nat \<times> nat \<times> nat) \<times> ('a slot list \<times> nat \<times> nat \<times> nat \<times> nat)) set" where
  "scan_order =
     inv_image (less_than <*lex*> less_than <*lex*> less_than <*lex*> less_than) scan_measure"

subsection \<open>Sequences of calls\<close>

text \<open>
  A caller's calls and the host's timer ticks, interleaved. \<open>Tick\<close> is the host firing
  the belt's recurring timer: it runs \<open>process\<close> when a timer of the belt is live and
  does nothing otherwise. A thrown exception ends the sequence.
\<close>

datatype 'a op = Add 'a | Tick | Start "speed option" | Stop

fun step :: "'a op \<Rightarrow> 'a belt \<Rightarrow> error + 'a belt" where
  "step (Add f) b = add f b"
| "step Tick b = (if intervals b = [] then Inr b else process b)"
| "step (Start sp) b = start sp b"
| "step Stop b = Inr (stop b)"

fun run :: "'a op list \<Rightarrow> 'a belt \<Rightarrow> error + 'a belt" where
  "run [] b = Inr b"
| "run (x # xs) b = (case step x b of Inl e \<Rightarrow> Inl e | Inr b' \<Rightarrow> run xs b')"

definition create_run :: "speed \<Rightarrow> 'a op list \<Rightarrow> error + 'a belt" where
  "create_run sp ops = (case ConveyorBelt sp of Inl e \<Rightarrow> Inl e | Inr b \<Rightarrow> run ops b)"

text \<open>
  The invariant of the belt and the host together: the live recurring timers are exactly
  the one held in \<open>timerid\<close>, a held handle is not \<open>0\<close>, a timer is held only by an
  active belt with a duration speed, and no \<open>null\<close> is queued.
\<close>

definition belt_inv :: "'a belt \<Rightarrow> bool" where
  "belt_inv b =
     (intervals b = (case timerid b of None \<Rightarrow> [] | Some h \<Rightarrow> [h]) \<and>
      timerid b \<noteq> Some 0 \<and> next_handle b \<noteq> 0 \<and>
      (timerid b \<noteq> None \<longrightarrow> active b \<and> speed b \<noteq> Immediate) \<and>
      Null \<notin> set (queue b))"

text \<open>
  The outcome of the last emptiness check \<open>this.queue.length === 0\<close> that
  \<open>process\<close> has evaluated along a sequence of calls: \<open>Some True\<close> when it found the
  queue non-empty, \<open>Some False\<close> when it found it empty, \<open>None\<close> when no check has
  been made. (\<open>&&\<close> evaluates the check only when the speed is not
  \<open>'immediate'\<close>.)
\<close>

fun last_check :: "'a op list \<Rightarrow> 'a belt \<Rightarrow> bool option \<Rightarrow> bool option" where
  "last_check [] b c = c"
| "last_check (x # xs) b c =
     (let c' = (case x of
                  Tick \<Rightarrow> if intervals b \<noteq> [] \<and> speed b \<noteq> Immediate
                          then Some (queue b \<noteq> []) else c
                | _ \<Rightarrow> c)
      in case step x b of Inl e \<Rightarrow> c' | Inr b' \<Rightarrow> last_check xs b' c')"

definition created_last_check :: "speed \<Rightarrow> 'a op list \<Rightarrow> bool option" where
  "created_last_check sp ops =
     (case ConveyorBelt sp of Inl e \<Rightarrow> None | Inr b \<Rightarrow> last_check ops b None)"

section \<open>Thinking.js: the idle timer\<close>

text \<open>
  One subject (a jQuery selection of one element) with the data the plugin keeps on it:
  \<open>thinking\<close> is \<open>data('thinking')\<close>, \<open>lastreset\<close> is \<open>data('thinking.lastreset')\<close>,
  \<open>outstanding\<close> is \<open>data('thinking.outstanding')\<close>; \<open>None\<close> is an absent entry.
  \<open>triggers\<close> are the handlers \<open>startThinking\<close> has bound, each with its closure's
  \<open>timerid\<close> variable and settings. The host is part of the state: \<open>now\<close> is the clock
  in milliseconds, \<open>timeouts\<close> the pending one-shot timers (handle, due time),
  \<open>next_timeout\<close> the next handle, and \<open>notified\<close> the times at which the
  \<open>thinking\<close> event was triggered by an idle timer.
\<close>

datatype tstate = TActive | TIdle

record trigger =
  t_events :: "string list"
  t_idle :: nat
  t_timerid :: "nat option"

record subject =
  thinking :: "tstate option"
  lastreset :: "nat option"
  outstanding :: "nat list option"
  triggers :: "trigger list"
  now :: nat
  timeouts :: "(nat \<times> nat) list"
  next_timeout :: nat
  notified :: "nat list"

record options =
  idle :: "nat option"
  events :: "string list option"

text \<open>\<open>$.fn.thinking.defaults\<close>.\<close>

definition default_idle :: nat where
  "default_idle = 1500"

definition default_events :: "string list" where
  "default_events = [''keydown'', ''keypress'', ''mousedown'']"

text \<open>A subject no plugin call has touched, at clock time \<open>t\<close>.\<close>

definition fresh_subject :: "nat \<Rightarrow> subject" where
  "fresh_subject t =
     \<lparr>thinking = None, lastreset = None, outstanding = None, triggers = [],
      now = t, timeouts = [], next_timeout = 1, notified = []\<rparr>"

text \<open>
  \<open>timeout(settings)\<close> inside \<open>startThinking\<close>: sets the one-shot timer and records its
  handle in \<open>thinking.outstanding\<close>.
\<close>

definition timeout :: "nat \<Rightarrow> subject \<Rightarrow> nat \<times> subject" where
  "timeout idle_ms s =
     (next_timeout s,
      s\<lparr>timeouts := timeouts s @ [(next_timeout s, now s + idle_ms)],
        next_timeout := Suc (next_timeout s),
        outstanding :=
          Some ((case outstanding s of None \<Rightarrow> [] | Some ids \<Rightarrow> ids) @ [next_timeout s])\<rparr>)"

definition clearTimeout :: "nat \<Rightarrow> subject \<Rightarrow> subject" where
  "clearTimeout h s = s\<lparr>timeouts := filter (\<lambda>(h', due). h' \<noteq> h) (timeouts s)\<rparr>"

definition resetTimeout :: "nat option \<Rightarrow> nat \<Rightarrow> subject \<Rightarrow> nat \<times> subject" where
  "resetTimeout tid idle_ms s =
     (let s1 = (if truthy_id tid
                then (clearTimeout (the tid) s)
                       \<lparr>outstanding :=
                          Some (filter (\<lambda>x. x \<noteq> the tid)
                                  (case outstanding s of None \<Rightarrow> [] | Some ids \<Rightarrow> ids))\<rparr>
                else s);
          s2 = s1\<lparr>thinking := Some TActive, lastreset := Some (now s1)\<rparr>
      in timeout idle_ms s2)"

definition startThinking :: "options \<Rightarrow> subject \<Rightarrow> subject" where
  "startThinking opts s =
     s\<lparr>triggers := triggers s @
         [\<lparr>t_events = (case events opts of None \<Rightarrow> default_events | Some es \<Rightarrow> es),
           t_idle = (case idle opts of None \<Rightarrow> default_idle | Some d \<Rightarrow> d),
           t_timerid = None\<rparr>]\<rparr>"

text \<open>
  An event named \<open>e\<close> on the subject: every bound handler whose event list has \<open>e\<close> runs
  \<open>timerid = resetTimeout(timerid, settings)\<close>, in the order the handlers were bound.
\<close>

fun dispatch :: "string \<Rightarrow> trigger list \<Rightarrow> subject \<Rightarrow> trigger list \<times> subject" where
  "dispatch e [] s = ([], s)"
| "dispatch e (t # ts) s =
     (if e \<in> set (t_events t)
      then (case resetTimeout (t_timerid t) (t_idle t) s of
              (h, s1) \<Rightarrow> (case dispatch e ts s1 of
                (ts', s2) \<Rightarrow> (t\<lparr>t_timerid := Some h\<rparr> # ts', s2)))
      else (case dispatch e ts s of (ts', s2) \<Rightarrow> (t # ts', s2)))"

definition activity :: "string \<Rightarrow> subject \<Rightarrow> subject" where
  "activity e s = (case dispatch e (triggers s) s of (ts', s') \<Rightarrow> s'\<lparr>triggers := ts'\<rparr>)"

text \<open>
  A one-shot timer fires: the host drops it and runs the callback
  \<open>selector.data('thinking', 'idle'); selector.trigger('thinking')\<close>.
\<close>

definition fire :: "nat \<times> nat \<Rightarrow> subject \<Rightarrow> subject" where
  "fire tm s =
     s\<lparr>timeouts := filter (\<lambda>x. x \<noteq> tm) (timeouts s), now := snd tm,
       thinking := Some TIdle, notified := notified s @ [snd tm]\<rparr>"

text \<open>The clock moves to \<open>t\<close>: the timers due by then fire, earliest first.\<close>

definition advance :: "nat \<Rightarrow> subject \<Rightarrow> subject" where
  "advance t s =
     (foldl (\<lambda>s' tm. fire tm s') s
        (sort_key snd (filter (\<lambda>(h, due). due \<le> t) (timeouts s))))\<lparr>now := t\<rparr>"

text \<open>Activity events, each with the time at which it arrives.\<close>

fun run_events :: "(nat \<times> string) list \<Rightarrow> subject \<Rightarrow> subject" where
  "run_events [] s = s"
| "run_events ((t, e) # evs) s = run_events evs (activity e (advance t s))"

definition cancelThinking :: "subject \<Rightarrow> subject" where
  "cancelThinking s =
     (foldr clearTimeout (case outstanding s of None \<Rightarrow> [] | Some ids \<Rightarrow> ids) s)
       \<lparr>lastreset := None, outstanding := None\<rparr>"

definition doneThinking :: "subject \<Rightarrow> subject" where
  "doneThinking s = (cancelThinking s)\<lparr>triggers := [], thinking := None\<rparr>"

text \<open>
  What \<open>command\<close> returns: the selection (for chaining), a boolean, a number of
  milliseconds, \<open>NaN\<close> (a date minus \<open>undefined\<close>) or \<open>undefined\<close>. The listeners that
  \<open>clear\<close> removes beyond those of \<open>done\<close> (idle listeners, focus and blur) are not
  part of the state.
\<close>

datatype result = Selection subject | Boolean bool | Number int | NaN | Undefined

definition command :: "subject \<Rightarrow> string \<Rightarrow> options \<Rightarrow> result" where
  "command selector cmd opts =
     (if cmd = ''start'' then Selection (startThinking opts selector)
      else if cmd = ''cancel'' then Selection (cancelThinking selector)
      else if cmd = ''done'' then Selection (doneThinking selector)
      else if cmd = ''clear'' then Selection (doneThinking selector)
      else if cmd = ''running'' then Boolean (thinking selector = Some TActive)
      else if cmd = ''elapsed'' then
        (if thinking selector = Some TActive
         then (case lastreset selector of
                 None \<Rightarrow> NaN
               | Some t \<Rightarrow> Number (int (now selector) - int t))
         else Undefined)
      else Selection selector)"

text \<open>
  The invariant of a subject with one bound handler: at most one one-shot timer is
  pending, it is the one whose handle the handler's \<open>timerid\<close> holds, and handles are
  not \<open>0\<close>.
\<close>

definition single_inv :: "subject \<Rightarrow> bool" where
  "single_inv s =
     (case triggers s of
        [t] \<Rightarrow> (timeouts s = [] \<or> (\<exists>h due. timeouts s = [(h, due)] \<and> t_timerid t = Some h)) \<and>
               t_timerid t \<noteq> Some 0 \<and> next_timeout s \<noteq> 0
      | _ \<Rightarrow> False)"

section \<open>Conditional.or\<close>

lemma foldl_js_or_true: "foldl (\<lambda>a b. js_or a b) (JBool True) vs = JBool True"
  by (induction vs) (simp_all add: js_or_def)

text \<open>
  Claim C10. \<open>Conditional.or(conds, data)\<close> returns \<open>true\<close> for every conditions object,
  the empty one and one whose conditions are all false included: the fold starts from
  \<open>true\<close>, and \<open>true || b\<close> is \<open>true\<close>.
\<close>

theorem Conditional_or_always_true: "Conditional_or conds data = JBool True"
  unfolding Conditional_or_def by (rule foldl_js_or_true)

section \<open>burn and flush\<close>

lemma call_fn: "f \<noteq> Null \<Longrightarrow> call f b = Inr (b\<lparr>executed := executed b @ [f]\<rparr>)"
  by (cases f) simp_all

lemma burn_loop_nat:
  "Null \<notin> set (queue b) \<Longrightarrow> n \<le> length (queue b) \<Longrightarrow>
   burn_loop (int n - 1) b =
     Inr (b\<lparr>queue := take (length (queue b) - n) (queue b),
            executed := executed b @ rev (drop (length (queue b) - n) (queue b))\<rparr>)"
proof (induction n arbitrary: b)
  case 0
  then show ?case by (simp add: burn_loop.simps)
next
  case (Suc m)
  let ?q = "queue b"
  from Suc.prems have ne: "?q \<noteq> []" by auto
  then have lastq: "last ?q \<noteq> Null" using Suc.prems(1) last_in_set by metis
  let ?b1 = "b\<lparr>queue := butlast ?q, executed := executed b @ [last ?q]\<rparr>"
  have pc: "pop_call b = Inr ?b1"
    using ne lastq by (simp add: pop_call_def call_fn)
  have nn: "Null \<notin> set (queue ?b1)"
    using Suc.prems(1) by (auto dest: in_set_butlastD)
  have len: "m \<le> length (queue ?b1)" using Suc.prems(2) by simp
  have step: "burn_loop (int (Suc m) - 1) b = burn_loop (int m - 1) ?b1"
    by (subst burn_loop.simps) (simp add: pc)
  have k: "length ?q - Suc m \<le> length (butlast ?q)" by simp
  have d: "drop (length ?q - Suc m) ?q = drop (length ?q - Suc m) (butlast ?q) @ [last ?q]"
  proof -
    have "drop (length ?q - Suc m) (butlast ?q @ [last ?q]) =
          drop (length ?q - Suc m) (butlast ?q) @ [last ?q]"
      using k by simp
    then show ?thesis using ne by simp
  qed
  have t: "take (length ?q - Suc m) ?q = take (length ?q - Suc m) (butlast ?q)"
  proof -
    have "take (length ?q - Suc m) (butlast ?q @ [last ?q]) =
          take (length ?q - Suc m) (butlast ?q)"
      using k by simp
    then show ?thesis using ne by simp
  qed
  show ?case
    unfolding step Suc.IH [OF nn len]
    by (simp add: d t)
qed

lemma burn_result:
  "Null \<notin> set (queue b) \<Longrightarrow>
   burn amount b =
     (let m = (case amount of None \<Rightarrow> length (queue b)
               | Some n \<Rightarrow> nat (min n (int (length (queue b)))))
      in Inr (b\<lparr>queue := take (length (queue b) - m) (queue b),
                executed := executed b @ take m (rev (queue b))\<rparr>))"
proof -
  assume nn: "Null \<notin> set (queue b)"
  define m where "m = (case amount of None \<Rightarrow> length (queue b)
               | Some n \<Rightarrow> nat (min n (int (length (queue b)))))"
  have mle: "m \<le> length (queue b)" by (auto simp: m_def split: option.splits)
  have "burn amount b = burn_loop (int m - 1) b"
  proof (cases amount)
    case None
    then show ?thesis by (simp add: burn_def m_def)
  next
    case (Some n)
    show ?thesis
    proof (cases "min n (int (length (queue b))) \<ge> 0")
      case True
      then show ?thesis using Some by (simp add: burn_def m_def)
    next
      case False
      then have "burn_loop (min n (int (length (queue b))) - 1) b = Inr b"
        by (subst burn_loop.simps) simp
      moreover have "burn_loop (int m - 1) b = Inr b"
        using False Some by (subst burn_loop.simps) (simp add: m_def)
      ultimately show ?thesis using Some by (simp add: burn_def)
    qed
  qed
  also have "\<dots> = Inr (b\<lparr>queue := take (length (queue b) - m) (queue b),
            executed := executed b @ rev (drop (length (queue b) - m) (queue b))\<rparr>)"
    by (rule burn_loop_nat [OF nn mle])
  also have "rev (drop (length (queue b) - m) (queue b)) = take m (rev (queue b))"
    using mle by (simp add: take_rev)
  finally show ?thesis by (simp add: m_def Let_def)
qed

text \<open>
  Claim C7. On a queue of functions, \<open>burn(n)\<close> with \<open>n \<ge> 0\<close> calls exactly
  \<open>min(n, len)\<close> queued functions, the most recently added first, and removes each
  from the queue: the calls appended to \<open>executed\<close> are the first \<open>min(n, len)\<close>
  of the reversed queue, and the queue keeps its first \<open>len - min(n, len)\<close> items.
  \<open>burn()\<close> calls all of them and leaves the queue empty.
\<close>

theorem burn_lifo:
  "Null \<notin> set (queue b) \<Longrightarrow>
   (0 \<le> n \<longrightarrow>
     burn (Some n) b =
       Inr (b\<lparr>queue := take (length (queue b) - nat (min n (int (length (queue b))))) (queue b),
              executed := executed b @ take (nat (min n (int (length (queue b))))) (rev (queue b))\<rparr>)
     \<and> length (take (nat (min n (int (length (queue b))))) (rev (queue b))) =
         nat (min n (int (length (queue b)))))
   \<and> burn None b = Inr (b\<lparr>queue := [], executed := executed b @ rev (queue b)\<rparr>)"
  by (simp add: burn_result Let_def)

theorem burn_lifo_witness:
  "Null \<notin> set [Fn (1::nat), Fn 2, Fn 3] \<and> (0::int) \<le> 2 \<and>
   burn (Some 2) \<lparr>queue = [Fn (1::nat), Fn 2, Fn 3], speed = Msec 35, timerid = None,
                  active = False, intervals = [], next_handle = 1, executed = []\<rparr> =
     Inr \<lparr>queue = [Fn 1], speed = Msec 35, timerid = None,
          active = False, intervals = [], next_handle = 1, executed = [Fn 3, Fn 2]\<rparr> \<and>
   burn None \<lparr>queue = [Fn (1::nat), Fn 2, Fn 3], speed = Msec 35, timerid = None,
                  active = False, intervals = [], next_handle = 1, executed = []\<rparr> =
     Inr \<lparr>queue = [], speed = Msec 35, timerid = None,
          active = False, intervals = [], next_handle = 1, executed = [Fn 3, Fn 2, Fn 1]\<rparr>"
  using burn_lifo [of "\<lparr>queue = [Fn (1::nat), Fn 2, Fn 3], speed = Msec 35, timerid = None,
                  active = False, intervals = [], next_handle = 1, executed = []\<rparr>" 2]
  by simp

text \<open>
  Claim C8. \<open>flush()\<close> empties the queue; \<open>flush(n)\<close> with \<open>n \<ge> 0\<close> keeps exactly
  the first \<open>n\<close> items in queue order and drops the trailing \<open>len - n\<close>. Nothing
  is called, and the active flag, the speed and the timer are as before.
\<close>

theorem flush_retains_prefix:
  "flush None b = b\<lparr>queue := []\<rparr> \<and>
   (0 \<le> n \<longrightarrow>
      flush (Some n) b = b\<lparr>queue := take (nat n) (queue b)\<rparr> \<and>
      queue b = queue (flush (Some n) b) @ drop (nat n) (queue b) \<and>
      length (drop (nat n) (queue b)) = length (queue b) - nat n) \<and>
   executed (flush amount b) = executed b \<and>
   active (flush amount b) = active b \<and>
   speed (flush amount b) = speed b \<and>
   timerid (flush amount b) = timerid b \<and>
   intervals (flush amount b) = intervals b"
  by (cases amount) (simp_all add: flush_def slice0_def)

theorem flush_retains_prefix_witness:
  "(0::int) \<le> 1 \<and>
   flush (Some 1) \<lparr>queue = [Fn (1::nat), Fn 2, Fn 3], speed = Msec 35, timerid = Some 1,
                   active = True, intervals = [1], next_handle = 2, executed = []\<rparr> =
     \<lparr>queue = [Fn 1], speed = Msec 35, timerid = Some 1,
      active = True, intervals = [1], next_handle = 2, executed = []\<rparr> \<and>
   flush None \<lparr>queue = [Fn (1::nat), Fn 2, Fn 3], speed = Msec 35, timerid = Some 1,
                   active = True, intervals = [1], next_handle = 2, executed = []\<rparr> =
     \<lparr>queue = [], speed = Msec 35, timerid = Some 1,
      active = True, intervals = [1], next_handle = 2, executed = []\<rparr>"
proof -
  let ?b = "\<lparr>queue = [Fn (1::nat), Fn 2, Fn 3], speed = Msec 35, timerid = Some 1,
             active = True, intervals = [1], next_handle = 2, executed = []\<rparr>"
  have z: "(0::int) \<le> 1" by simp
  from flush_retains_prefix [of ?b 1 None] z
  have a: "flush None ?b = ?b\<lparr>queue := []\<rparr>"
    and c: "flush (Some 1) ?b = ?b\<lparr>queue := take (nat 1) (queue ?b)\<rparr>"
    by blast+
  show ?thesis unfolding a c by simp
qed

section \<open>Immediate speed\<close>

lemma create_immediate:
  "ConveyorBelt Immediate =
     Inr \<lparr>queue = [], speed = Immediate, timerid = None, active = True,
          intervals = [], next_handle = 1, executed = []\<rparr>"
  by (simp add: ConveyorBelt_def start_def stop_def truthy_id_def Let_def burn_result)

lemma add_immediate_empty:
  "add f \<lparr>queue = [], speed = Immediate, timerid = None, active = True,
          intervals = [], next_handle = h, executed = xs\<rparr> =
     Inr \<lparr>queue = [], speed = Immediate, timerid = None, active = True,
          intervals = [], next_handle = h, executed = xs @ [Fn f]\<rparr>"
  by (simp add: add_def Let_def burn_result)

text \<open>
  Claim C2, as amended. On a belt created with speed \<open>'immediate'\<close>, \<open>add(f1)\<close> then
  \<open>add(f2)\<close> calls both functions synchronously and leaves the queue empty, and
  \<open>f1\<close> is called before \<open>f2\<close>: each \<open>add\<close> runs the function it has just queued
  before it returns, so \<open>f1\<close> has already run when \<open>f2\<close> is added.
\<close>

theorem immediate_add_runs_on_the_spot:
  "create_run Immediate [Add f1] =
     Inr \<lparr>queue = [], speed = Immediate, timerid = None, active = True,
          intervals = [], next_handle = 1, executed = [Fn f1]\<rparr> \<and>
   create_run Immediate [Add f1, Add f2] =
     Inr \<lparr>queue = [], speed = Immediate, timerid = None, active = True,
          intervals = [], next_handle = 1, executed = [Fn f1, Fn f2]\<rparr>"
  by (simp add: create_run_def create_immediate add_immediate_empty)

text \<open>
  The claim as stated has \<open>f2\<close> called before \<open>f1\<close>; with two distinct functions the
  calls are in the order of the \<open>add\<close>s, not the reverse.
\<close>

theorem immediate_add_lifo_counterexample:
  "map_sum id executed (create_run Immediate [Add (1::nat), Add 2]) = Inr [Fn 1, Fn 2] \<and>
   map_sum id executed (create_run Immediate [Add (1::nat), Add 2]) \<noteq> Inr [Fn 2, Fn 1]"
  by (simp add: create_run_def create_immediate add_immediate_empty)

section \<open>The recurring timer\<close>

lemma burn_None_inv:
  assumes "belt_inv b"
  shows "\<exists>b'. burn None b = Inr b' \<and> belt_inv b'"
proof -
  from assms have nn: "Null \<notin> set (queue b)" by (simp add: belt_inv_def)
  show ?thesis
    using assms by (simp add: burn_result [OF nn] belt_inv_def)
qed

lemma stop_inv: "belt_inv b \<Longrightarrow> belt_inv (stop b) \<and> timerid (stop b) = None"
  by (auto simp: belt_inv_def stop_def Let_def truthy_id_def clearInterval_def
      split: option.splits)

lemma start_inv:
  assumes "belt_inv b"
  shows "\<exists>b'. start sp b = Inr b' \<and> belt_inv b'"
proof -
  define b2 where "b2 = (case sp of None \<Rightarrow> (stop b)\<lparr>active := True\<rparr>
                          | Some s \<Rightarrow> (stop b)\<lparr>active := True, speed := s\<rparr>)"
  have i2: "belt_inv (b2\<lparr>timerid := None\<rparr>)" and t2: "timerid b2 = None"
    and a2: "active b2"
    using stop_inv [OF assms] by (auto simp: b2_def belt_inv_def split: option.splits)
  have st: "start sp b =
     (if speed b2 = Immediate then burn None (b2\<lparr>timerid := None\<rparr>)
      else (case setInterval b2 of (h, b3) \<Rightarrow> Inr (b3\<lparr>timerid := Some h\<rparr>)))"
    by (cases sp) (simp_all add: start_def b2_def Let_def)
  show ?thesis
  proof (cases "speed b2 = Immediate")
    case True
    then show ?thesis using burn_None_inv [OF i2] st by simp
  next
    case False
    then show ?thesis
      using i2 t2 a2 st by (simp add: setInterval_def belt_inv_def)
  qed
qed

lemma add_inv:
  assumes "belt_inv b"
  shows "\<exists>b'. add f b = Inr b' \<and> belt_inv b'"
proof -
  let ?b1 = "b\<lparr>queue := queue b @ [Fn f]\<rparr>"
  have i1: "belt_inv ?b1" using assms by (simp add: belt_inv_def)
  show ?thesis
  proof (cases "active b")
    case False
    then show ?thesis using i1 by (simp add: add_def Let_def)
  next
    case act: True
    show ?thesis
    proof (cases "speed b = Immediate")
      case True
      then show ?thesis using burn_None_inv [OF i1] act by (simp add: add_def Let_def)
    next
      case False
      then show ?thesis
        using i1 act
        by (auto simp: add_def Let_def truthy_id_def setInterval_def belt_inv_def
            split: option.splits)
    qed
  qed
qed

lemma tick_inv:
  assumes "belt_inv b"
  shows "\<exists>b'. step Tick b = Inr b' \<and> belt_inv b'"
proof (cases "intervals b = []")
  case True
  then show ?thesis using assms by simp
next
  case False
  with assms obtain h where h: "timerid b = Some h" "speed b \<noteq> Immediate"
    by (auto simp: belt_inv_def split: option.splits)
  show ?thesis
  proof (cases "queue b = []")
    case True
    then show ?thesis
      using False h assms by (simp add: process_def clearInterval_def belt_inv_def)
  next
    case ne: False
    then have "last (queue b) \<noteq> Null"
      using assms last_in_set unfolding belt_inv_def by metis
    then show ?thesis
      using False ne h assms
      by (auto simp: process_def pop_call_def call_fn belt_inv_def dest: in_set_butlastD)
  qed
qed

lemma step_inv:
  assumes "belt_inv b"
  shows "\<exists>b'. step x b = Inr b' \<and> belt_inv b'"
proof (cases x)
  case (Add f)
  then show ?thesis using add_inv [OF assms] by simp
next
  case Tick
  then show ?thesis using tick_inv [OF assms] by simp
next
  case (Start sp)
  then show ?thesis using start_inv [OF assms] by simp
next
  case Stop
  then show ?thesis using stop_inv [OF assms] by simp
qed

lemma run_inv: "belt_inv b \<Longrightarrow> \<exists>b'. run ops b = Inr b' \<and> belt_inv b'"
proof (induction ops arbitrary: b)
  case Nil
  then show ?case by simp
next
  case (Cons x xs)
  from step_inv [OF Cons.prems] obtain b1 where b1: "step x b = Inr b1" "belt_inv b1"
    by blast
  from Cons.IH [OF b1(2)] show ?case using b1(1) by simp
qed

lemma create_inv: "\<exists>b. ConveyorBelt sp = Inr b \<and> belt_inv b"
  unfolding ConveyorBelt_def by (rule start_inv) (simp add: belt_inv_def)

lemma create_run_inv: "\<exists>b. create_run sp (ops :: 'a op list) = Inr b \<and> belt_inv b"
proof -
  obtain b0 :: "'a belt" where b0: "ConveyorBelt sp = Inr b0" "belt_inv b0" using create_inv by blast
  from run_inv [OF b0(2)] show ?thesis using b0(1) by (simp add: create_run_def)
qed

text \<open>
  Claim C3, as amended. After construction with any speed and any sequence of \<open>add\<close>,
  timer ticks, \<open>start\<close> and \<open>stop\<close>, no call throws, at most one recurring timer of
  the belt is live and it is the one held in \<open>timerid\<close>; \<open>timerid\<close> is non-null only
  while the belt is active and its speed is a duration; and a tick that finds the queue
  empty clears the timer.
\<close>

theorem one_timer:
  "\<exists>b. create_run sp ops = Inr b \<and>
       length (intervals b) \<le> 1 \<and>
       set (intervals b) = set_option (timerid b) \<and>
       (timerid b \<noteq> None \<longrightarrow> active b \<and> speed b \<noteq> Immediate) \<and>
       (queue b = [] \<longrightarrow> (\<exists>b'. step Tick b = Inr b' \<and> timerid b' = None \<and> intervals b' = []))"
proof -
  obtain b where b: "create_run sp ops = Inr b" "belt_inv b" using create_run_inv by blast
  have "queue b = [] \<longrightarrow> (\<exists>b'. step Tick b = Inr b' \<and> timerid b' = None \<and> intervals b' = [])"
    using b(2) by (auto simp: belt_inv_def process_def clearInterval_def split: option.splits)
  then show ?thesis using b
    by (auto simp: belt_inv_def split: option.splits)
qed

lemma run_add_tick:
  "create_run (Msec 100) [Add (1::nat), Tick] =
     Inr \<lparr>queue = [], speed = Msec 100, timerid = Some 1, active = True,
          intervals = [1], next_handle = 2, executed = [Fn 1]\<rparr>"
  by code_simp

theorem one_timer_witness:
  "\<exists>b. create_run (Msec 100) [Add (1::nat), Tick] = Inr b \<and>
       length (intervals b) \<le> 1 \<and>
       set (intervals b) = set_option (timerid b) \<and>
       timerid b \<noteq> None \<and> active b \<and> speed b \<noteq> Immediate \<and>
       queue b = [] \<and> (\<exists>b'. step Tick b = Inr b' \<and> timerid b' = None \<and> intervals b' = [])"
proof -
  from one_timer [of "Msec 100" "[Add (1::nat), Tick]"]
  obtain b where b: "create_run (Msec 100) [Add (1::nat), Tick] = Inr b"
    "length (intervals b) \<le> 1" "set (intervals b) = set_option (timerid b)"
    "queue b = [] \<longrightarrow> (\<exists>b'. step Tick b = Inr b' \<and> timerid b' = None \<and> intervals b' = [])"
    by blast
  from b(1) [unfolded run_add_tick]
  have eq: "b = \<lparr>queue = [], speed = Msec 100, timerid = Some 1, active = True,
          intervals = [1], next_handle = 2, executed = [Fn 1]\<rparr>"
    by simp
  have "queue b = []" "timerid b \<noteq> None" "active b" "speed b \<noteq> Immediate"
    by (simp_all add: eq)
  with b show ?thesis by blast
qed

text \<open>
  The claim as stated also has the queue non-empty at the last check whenever
  \<open>timerid\<close> is non-null. \<open>start\<close> sets the timer without looking at the queue: on a
  belt created with 100 ms, the first tick finds the queue empty and clears the timer,
  and \<open>start()\<close> then sets a new one over the same empty queue.
\<close>

theorem timer_over_checked_empty_queue_counterexample:
  "create_run (Msec 100) [Tick, Start None :: nat op] =
     Inr \<lparr>queue = [], speed = Msec 100, timerid = Some 2, active = True,
          intervals = [2], next_handle = 3, executed = []\<rparr> \<and>
   created_last_check (Msec 100) [Tick, Start None :: nat op] = Some False"
  by code_simp

section \<open>decimate\<close>

lemma decimate_loop_frame:
  "decimate_loop q r inc i l = Some q' \<Longrightarrow>
   length q' = length q \<and>
   (\<forall>j<length q. q' ! j = q ! j \<or> q' ! j = Null) \<and>
   q' ! (length q - 1) = q ! (length q - 1)"
proof (induction q r inc i l q' rule: decimate_loop.raw_induct [rotated 1, consumes 1])
  case (1 loop_fn q r inc i l q')
  let ?i = "(i + inc) mod length q"
  show ?case
  proof (cases "r > 0")
    case False
    with 1(2) show ?thesis by simp
  next
    case pos: True
    show ?thesis
    proof (cases "?i = length q - 1")
      case True
      with pos 1(2) have "loop_fn q r inc ?i l = Some q'" by simp
      from 1(1) [OF this] show ?thesis .
    next
      case notlast: False
      show ?thesis
      proof (cases "slot_truthy (q ! ?i)")
        case True
        with pos notlast 1(2) obtain inc' where
          "loop_fn (q[?i := Null]) (r - 1) inc' ?i (Suc l) = Some q'"
          by (simp split: if_splits)
        from 1(1) [OF this] have
          a: "length q' = length q"
          and b: "\<forall>j<length q. q' ! j = q[?i := Null] ! j \<or> q' ! j = Null"
          and c: "q' ! (length q - 1) = q[?i := Null] ! (length q - 1)"
          by simp_all
        have "\<forall>j<length q. q' ! j = q ! j \<or> q' ! j = Null"
        proof (intro allI impI)
          fix j assume j: "j < length q"
          with b have "q' ! j = q[?i := Null] ! j \<or> q' ! j = Null" by blast
          then show "q' ! j = q ! j \<or> q' ! j = Null"
            using j by (cases "j = ?i") auto
        qed
        moreover have "q' ! (length q - 1) = q ! (length q - 1)"
          using c notlast by simp
        ultimately show ?thesis using a by blast
      next
        case False
        with pos notlast 1(2) obtain inc' where
          "loop_fn q r inc' ?i (Suc l) = Some q'"
          by (simp split: if_splits)
        from 1(1) [OF this] show ?thesis .
      qed
    qed
  qed
qed

lemma cleanup_loop_length: "length (cleanup_loop n q) = length q"
  by (induction n arbitrary: q) simp_all

lemma cleanup_loop_nth:
  "n \<le> length q \<Longrightarrow> j < length q \<Longrightarrow>
   cleanup_loop n q ! j = (if j < n \<and> q ! j = Null then Noop else q ! j)"
proof (induction n arbitrary: q)
  case 0
  then show ?case by simp
next
  case (Suc n)
  let ?q1 = "if q ! n = Null then q[n := Noop] else q"
  have len: "length ?q1 = length q" by simp
  from Suc.prems have n: "n \<le> length ?q1" and j: "j < length ?q1" by simp_all
  have "cleanup_loop (Suc n) q ! j = cleanup_loop n ?q1 ! j" by simp
  also have "\<dots> = (if j < n \<and> ?q1 ! j = Null then Noop else ?q1 ! j)"
    by (rule Suc.IH [OF n j])
  also have "\<dots> = (if j < Suc n \<and> q ! j = Null then Noop else q ! j)"
    using Suc.prems by (cases "j = n") (auto simp: nth_list_update)
  finally show ?case .
qed

lemma decimate_by_frame:
  assumes "decimate_by k q = Some q'"
  shows "length q' = length q \<and>
         (\<forall>j<length q. q' ! j = q ! j \<or> q' ! j = Noop) \<and>
         q' ! (length q - 1) = q ! (length q - 1) \<and>
         (\<forall>j<length q - 1. q' ! j \<noteq> Null)"
proof -
  from assms obtain q1 where q1: "decimate_loop q k (length q div k) 0 0 = Some q1"
    and q': "q' = cleanup_loop (length q1 - 1) q1"
    by (auto simp: decimate_by_def split: option.splits)
  from decimate_loop_frame [OF q1] have
    a: "length q1 = length q"
    and b: "\<forall>j<length q. q1 ! j = q ! j \<or> q1 ! j = Null"
    and c: "q1 ! (length q - 1) = q ! (length q - 1)"
    by simp_all
  have nth: "\<And>j. j < length q \<Longrightarrow>
     q' ! j = (if j < length q - 1 \<and> q1 ! j = Null then Noop else q1 ! j)"
    unfolding q' using cleanup_loop_nth [of "length q1 - 1" q1] a by simp
  have "\<forall>j<length q. q' ! j = q ! j \<or> q' ! j = Noop"
  proof (intro allI impI)
    fix j assume j: "j < length q"
    from b j have qj: "q1 ! j = q ! j \<or> q1 ! j = Null" by blast
    show "q' ! j = q ! j \<or> q' ! j = Noop"
    proof (cases "j < length q - 1")
      case True
      then show ?thesis using nth [OF j] qj by auto
    next
      case False
      with j have "j = length q - 1" by simp
      then show ?thesis using nth [OF j] c by simp
    qed
  qed
  moreover have "q' ! (length q - 1) = q ! (length q - 1)"
  proof (cases "q = []")
    case True
    then show ?thesis using a q' by simp
  next
    case False
    then have "length q - 1 < length q" by simp
    from nth [OF this] c show ?thesis by simp
  qed
  moreover have "\<forall>j<length q - 1. q' ! j \<noteq> Null"
    using nth by simp
  ultimately show ?thesis by (simp add: q' cleanup_loop_length a)
qed

text \<open>
  Claim C6. Whenever \<open>decimate\<close> returns, the queue has the length it had, every slot
  holds either what it held or the no-op function (a marked slot is rewritten in
  place, nothing is removed or moved), the last slot holds what it held, and no other
  field of the belt has changed.
\<close>

theorem decimate_keeps_length_and_last:
  assumes "decimate factor b = Some b'"
  shows "length (queue b') = length (queue b) \<and>
         (\<forall>j<length (queue b). queue b' ! j = queue b ! j \<or> queue b' ! j = Noop) \<and>
         queue b' ! (length (queue b) - 1) = queue b ! (length (queue b) - 1) \<and>
         b' = b\<lparr>queue := queue b'\<rparr>"
proof -
  from assms obtain q' where q': "decimate_queue factor (queue b) = Some q'"
    and b': "b' = b\<lparr>queue := q'\<rparr>"
    by (auto simp: decimate_def split: option.splits)
  show ?thesis
  proof (cases "length (queue b) \<le> 1")
    case True
    with q' have "q' = queue b" by (simp add: decimate_queue_def)
    then show ?thesis using b' by simp
  next
    case False
    with q' obtain k where "decimate_by k (queue b) = Some q'"
      by (simp add: decimate_queue_def)
    from decimate_by_frame [OF this] show ?thesis using b' by simp
  qed
qed

theorem decimate_keeps_length_and_last_witness:
  "decimate (1 / 2) \<lparr>queue = [Fn (1::nat), Fn 2, Fn 3, Fn 4], speed = Msec 35, timerid = Some 1,
       active = True, intervals = [1], next_handle = 2, executed = []\<rparr> =
     Some \<lparr>queue = [Noop, Fn 2, Noop, Fn 4], speed = Msec 35, timerid = Some 1,
       active = True, intervals = [1], next_handle = 2, executed = []\<rparr> \<and>
   length [Noop, Fn 2, Noop, Fn (4::nat)] = length [Fn (1::nat), Fn 2, Fn 3, Fn 4] \<and>
   [Noop, Fn 2, Noop, Fn (4::nat)] ! 3 = [Fn (1::nat), Fn 2, Fn 3, Fn 4] ! 3"
proof -
  let ?b = "\<lparr>queue = [Fn (1::nat), Fn 2, Fn 3, Fn 4], speed = Msec 35, timerid = Some 1,
       active = True, intervals = [1], next_handle = 2, executed = []\<rparr>"
  let ?b' = "\<lparr>queue = [Noop, Fn 2, Noop, Fn (4::nat)], speed = Msec 35, timerid = Some 1,
       active = True, intervals = [1], next_handle = 2, executed = []\<rparr>"
  have run: "decimate (1 / 2) ?b = Some ?b'" by code_simp
  from decimate_keeps_length_and_last [OF run]
  have "length (queue ?b') = length (queue ?b)"
    and "queue ?b' ! (length (queue ?b) - 1) = queue ?b ! (length (queue ?b) - 1)"
    by blast+
  then show ?thesis using run by simp
qed

lemma markable_finite: "finite (markable q)"
  by (simp add: markable_def)

lemma markable_card_le: "card (markable q) \<le> length q - 1"
proof -
  have "markable q \<subseteq> {..<length q - 1}" by (auto simp: markable_def)
  then have "card (markable q) \<le> card {..<length q - 1}" by (intro card_mono) simp_all
  then show ?thesis by simp
qed

lemma markable_mark:
  assumes "j < length q - 1" "slot_truthy (q ! j)"
  shows "markable (q[j := Null]) = markable q - {j}"
  using assms by (auto simp: markable_def slot_truthy_def nth_list_update)

lemma decimate_loop_needs_slots:
  assumes "decimate_loop q r inc i l = Some q'"
  shows "0 < length q \<longrightarrow> r \<le> card (markable q)"
  using assms
proof (induction q r inc i l q' rule: decimate_loop.raw_induct [rotated 1, consumes 1])
  case (1 loop_fn q r inc i l q')
  let ?i = "(i + inc) mod length q"
  show ?case
  proof (intro impI)
    assume len: "0 < length q"
    show "r \<le> card (markable q)"
    proof (cases "r > 0")
      case False
      then show ?thesis by simp
    next
      case pos: True
      show ?thesis
      proof (cases "?i = length q - 1")
        case True
        with pos 1(2) have "loop_fn q r inc ?i l = Some q'" by simp
        from 1(1) [OF this] len show ?thesis by simp
      next
        case notlast: False
        have ilt: "?i < length q - 1"
        proof -
          have "?i < length q" using len by simp
          with notlast show ?thesis by simp
        qed
        show ?thesis
        proof (cases "slot_truthy (q ! ?i)")
          case True
          with pos notlast 1(2) obtain inc' where
            "loop_fn (q[?i := Null]) (r - 1) inc' ?i (Suc l) = Some q'"
            by (simp split: if_splits)
          from 1(1) [OF this] len have "r - 1 \<le> card (markable (q[?i := Null]))" by simp
          also have "\<dots> = card (markable q - {?i})"
            by (simp add: markable_mark [OF ilt True])
          also have "\<dots> = card (markable q) - 1"
          proof -
            have "?i \<in> markable q" using ilt True by (simp add: markable_def)
            then show ?thesis by (simp add: markable_finite)
          qed
          finally have "r - 1 \<le> card (markable q) - 1" .
          moreover have "card (markable q) > 0"
          proof -
            have "?i \<in> markable q" using ilt True by (simp add: markable_def)
            then show ?thesis using markable_finite [of q] by (auto simp: card_gt_0_iff)
          qed
          ultimately show ?thesis using pos by simp
        next
          case False
          with pos notlast 1(2) obtain inc' where
            "loop_fn q r inc' ?i (Suc l) = Some q'"
            by (simp split: if_splits)
          from 1(1) [OF this] len show ?thesis by simp
        qed
      qed
    qed
  qed
qed

lemma decimate_loop_all_never_returns:
  assumes "0 < length q"
  shows "decimate_loop q (length q) inc i l = None"
proof (cases "decimate_loop q (length q) inc i l")
  case None
  then show ?thesis .
next
  case (Some q')
  from decimate_loop_needs_slots [OF Some] assms
  have "length q \<le> card (markable q)" by simp
  moreover have "length q - 1 < length q" using assms by simp
  ultimately have False using markable_card_le [of q] by linarith
  then show ?thesis ..
qed

lemma wf_scan_order: "wf scan_order"
  unfolding scan_order_def by (intro wf_inv_image wf_lex_prod wf_less_than)

lemma next_markable_step:
  assumes ne: "markable q \<noteq> {}" and i: "i < length q"
    and skip: "(i + 1) mod length q \<notin> markable q"
  shows "next_markable q ((i + 1) mod length q) < next_markable q i"
proof -
  let ?n = "length q"
  let ?P = "\<lambda>i d. 1 \<le> d \<and> (i + d) mod ?n \<in> markable q"
  from ne obtain j where j: "j \<in> markable q" by blast
  then have jn: "j < ?n" by (auto simp: markable_def)
  have "(i + (?n - i + j)) mod ?n = j" using i jn by simp
  then have "?P i (?n - i + j)" using i j by simp
  then have least: "?P i (next_markable q i)"
    unfolding next_markable_def by (rule LeastI)
  let ?d = "next_markable q i"
  have "?d \<noteq> 1" using least skip by auto
  with least have d2: "2 \<le> ?d" by simp
  have "((i + 1) mod ?n + (?d - 1)) mod ?n = (i + 1 + (?d - 1)) mod ?n"
    by (simp add: mod_add_left_eq)
  also have "\<dots> = (i + ?d) mod ?n" using d2 by simp
  finally have "?P ((i + 1) mod ?n) (?d - 1)" using least d2 by simp
  then have "next_markable q ((i + 1) mod ?n) \<le> ?d - 1"
    unfolding next_markable_def by (rule Least_le)
  with d2 show ?thesis by simp
qed

lemma decimate_loop_returns_aux:
  "scan_inv (fst st) (fst (snd st)) (fst (snd (snd st))) (fst (snd (snd (snd st)))) \<longrightarrow>
   (\<exists>q'. decimate_loop (fst st) (fst (snd st)) (fst (snd (snd st)))
            (fst (snd (snd (snd st)))) (snd (snd (snd (snd st)))) = Some q')"
proof (induction st rule: wf_induct_rule [OF wf_scan_order])
  case (1 st)
  obtain q r inc i l where st: "st = (q, r, inc, i, l)" by (cases st) auto
  let ?n = "length q"
  let ?i = "(i + inc) mod ?n"
  show ?case
  proof (intro impI)
    assume "scan_inv (fst st) (fst (snd st)) (fst (snd (snd st))) (fst (snd (snd (snd st))))"
    then have inv: "scan_inv q r inc i" by (simp add: st)
    then have n2: "2 \<le> ?n" and inc1: "1 \<le> inc" and incn: "inc \<le> ?n" and i: "i < ?n"
      and full: "inc = ?n \<longrightarrow> i \<noteq> ?n - 1" and rc: "r \<le> card (markable q)"
      by (simp_all add: scan_inv_def)
    have ih: "\<exists>q'. decimate_loop q2 r2 inc2 i2 l2 = Some q'"
      if "((q2, r2, inc2, i2, l2), (q, r, inc, i, l)) \<in> scan_order" "scan_inv q2 r2 inc2 i2"
      for q2 r2 inc2 i2 l2
      using 1 [of "(q2, r2, inc2, i2, l2)"] that by (simp add: st)
    have n0: "0 < ?n" using n2 by linarith
    have i'n: "?i < ?n" using n0 by simp
    show "\<exists>q'. decimate_loop (fst st) (fst (snd st)) (fst (snd (snd st)))
            (fst (snd (snd (snd st)))) (snd (snd (snd (snd st)))) = Some q'"
    proof (cases "r > 0")
      case False
      then show ?thesis by (subst decimate_loop.simps) (simp add: st)
    next
      case pos: True
      with rc have ne: "markable q \<noteq> {}" by auto
      have one: "?i = (i + 1) mod ?n" if "inc = 1" using that by simp
      show ?thesis
      proof (cases "?i = ?n - 1")
        case last: True
        have notfull: "inc \<noteq> ?n"
        proof
          assume "inc = ?n"
          then have "?i = i" using i by simp
          with last full \<open>inc = ?n\<close> show False by simp
        qed
        have inot: "i \<noteq> ?n - 1" if "inc \<noteq> 1"
        proof
          assume e: "i = ?n - 1"
          have "inc < ?n" using incn notfull by simp
          then have "(?n - 1 + inc) mod ?n = inc - 1"
            using inc1 n2 by (simp add: mod_if)
          with last e have "inc - 1 = ?n - 1" by simp
          with inc1 n2 notfull show False by simp
        qed
        have inv2: "scan_inv q r inc ?i"
          using inv i'n notfull by (simp add: scan_inv_def)
        have dec: "((q, r, inc, ?i, l), (q, r, inc, i, l)) \<in> scan_order"
        proof (cases "inc = 1")
          case True
          have "?i \<notin> markable q" using last by (simp add: markable_def)
          then have "next_markable q ?i < next_markable q i"
            using next_markable_step [OF ne i] one [OF True] by simp
          then show ?thesis using True by (simp add: scan_order_def)
        next
          case False
          then show ?thesis using last inot by (simp add: scan_order_def)
        qed
        have unfold: "decimate_loop q r inc i l = decimate_loop q r inc ?i l"
          using pos last by (subst decimate_loop.simps) simp
        from ih [OF dec inv2] show ?thesis by (simp add: st unfold)
      next
        case notlast: False
        with i'n have ilt: "?i < ?n - 1" by simp
        let ?inc' = "if Suc l mod ?n = 0 then (if inc > 1 then inc - 1 else 1) else inc"
        have inc'1: "1 \<le> ?inc'" and inc'n: "?inc' \<le> ?n" using inc1 incn by auto
        show ?thesis
        proof (cases "slot_truthy (q ! ?i)")
          case True
          let ?q' = "q[?i := Null]"
          have mem: "?i \<in> markable q" using ilt True by (simp add: markable_def)
          have "card (markable ?q') = card (markable q) - 1"
            using mem by (simp add: markable_mark [OF ilt True] markable_finite)
          then have inv2: "scan_inv ?q' (r - 1) ?inc' ?i"
            using n2 inc'1 inc'n i'n notlast rc pos by (simp add: scan_inv_def)
          have dec: "((?q', r - 1, ?inc', ?i, Suc l), (q, r, inc, i, l)) \<in> scan_order"
            using pos by (simp add: scan_order_def)
          have unfold: "decimate_loop q r inc i l =
              decimate_loop ?q' (r - 1) ?inc' ?i (Suc l)"
            using pos notlast True by (subst decimate_loop.simps) simp
          from ih [OF dec inv2] show ?thesis by (simp add: st unfold)
        next
          case False
          have inv2: "scan_inv q r ?inc' ?i"
            using n2 inc'1 inc'n i'n notlast rc by (simp add: scan_inv_def)
          have dec: "((q, r, ?inc', ?i, Suc l), (q, r, inc, i, l)) \<in> scan_order"
          proof (cases "inc = 1")
            case True
            have "?i \<notin> markable q" using False by (simp add: markable_def)
            then have "next_markable q ?i < next_markable q i"
              using next_markable_step [OF ne i] one [OF True] by simp
            then show ?thesis using True by (simp add: scan_order_def)
          next
            case big: False
            with inc1 have inc2: "1 < inc" by simp
            show ?thesis
            proof (cases "Suc l mod ?n = 0")
              case True
              then show ?thesis using inc2 by (simp add: scan_order_def)
            next
              case nz: False
              then have "Suc l mod ?n = Suc (l mod ?n)" by (simp add: mod_Suc split: if_splits)
              moreover have "Suc l mod ?n < ?n" using n0 by simp
              ultimately have "?n - 1 - Suc l mod ?n < ?n - 1 - l mod ?n" by simp
              then show ?thesis using nz big by (simp add: scan_order_def)
            qed
          qed
          have unfold: "decimate_loop q r inc i l = decimate_loop q r ?inc' ?i (Suc l)"
            using pos notlast False by (subst decimate_loop.simps) simp
          from ih [OF dec inv2] show ?thesis by (simp add: st unfold)
        qed
      qed
    qed
  qed
qed

lemma decimate_loop_returns:
  "scan_inv q r inc i \<Longrightarrow> \<exists>q'. decimate_loop q r inc i l = Some q'"
  using decimate_loop_returns_aux [of "(q, r, inc, i, l)"] by simp

lemma markable_all:
  assumes "Null \<notin> set q"
  shows "card (markable q) = length q - 1"
proof -
  have "q ! j \<noteq> Null" if "j < length q - 1" for j
  proof -
    from that have "j < length q" by simp
    then have "q ! j \<in> set q" by (rule nth_mem)
    with assms show ?thesis by metis
  qed
  then have "markable q = {..<length q - 1}"
    by (auto simp: markable_def slot_truthy_def)
  then show ?thesis by simp
qed

lemma decimate_by_returns:
  assumes "2 \<le> length q" "Null \<notin> set q" "k < length q"
  shows "\<exists>q'. decimate_by k q = Some q'"
proof (cases "k = 0")
  case True
  have "decimate_loop q 0 inc 0 0 = Some q" for inc
    by (subst decimate_loop.simps) simp
  then show ?thesis using True by (simp add: decimate_by_def)
next
  case False
  then have k1: "1 \<le> k" by simp
  have "1 \<le> length q div k" using assms(3) k1
    by (simp add: Suc_le_eq div_greater_zero_iff)
  moreover have "length q div k \<le> length q" by simp
  moreover have "0 < length q" "k \<le> length q - 1" "0 \<noteq> length q - 1"
    using assms by linarith+
  ultimately have "scan_inv q k (length q div k) 0"
    using assms by (simp add: scan_inv_def markable_all)
  from decimate_loop_returns [OF this, of 0] show ?thesis
    by (auto simp: decimate_by_def)
qed

text \<open>
  Claim C1, with the input where the code fails it. On a queue of two or more functions
  and a reduction \<open>k\<close> of at most the queue's length, the scan returns for every
  \<open>k\<close> below the length and never returns for \<open>k\<close> equal to it. The scan marks
  only slots other than the last, so it can bring \<open>reduction\<close> down by at most
  \<open>len - 1\<close>; with \<open>reduction = len\<close> (a factor of \<open>1\<close>, or any factor that rounds
  to it) the loop condition \<open>reduction > 0\<close> stays true for ever.
\<close>

theorem decimate_by_hangs_iff:
  assumes "2 \<le> length q" "Null \<notin> set q" "k \<le> length q"
  shows "(decimate_by k q = None) = (k = length q)"
proof
  assume none: "decimate_by k q = None"
  show "k = length q"
  proof (rule ccontr)
    assume "k \<noteq> length q"
    with assms(3) have "k < length q" by simp
    from decimate_by_returns [OF assms(1,2) this] none show False by simp
  qed
next
  assume k: "k = length q"
  from assms(1) have "0 < length q" by linarith
  then show "decimate_by k q = None"
    by (simp add: k decimate_by_def decimate_loop_all_never_returns)
qed

theorem decimate_by_hangs_iff_witness:
  "2 \<le> length [Fn (1::nat), Fn 2] \<and> Null \<notin> set [Fn (1::nat), Fn 2] \<and>
   decimate_by 2 [Fn (1::nat), Fn 2] = None \<and>
   decimate_by 1 [Fn (1::nat), Fn 2] \<noteq> None"
proof -
  have h: "2 \<le> length [Fn (1::nat), Fn 2]" by simp
  have n: "Null \<notin> set [Fn (1::nat), Fn 2]" by simp
  have k2: "2 \<le> length [Fn (1::nat), Fn 2]" and k1: "1 \<le> length [Fn (1::nat), Fn 2]"
    by simp_all
  have l: "length [Fn (1::nat), Fn 2] = 2" by simp
  from decimate_by_hangs_iff [OF h n k2]
  have a: "decimate_by 2 [Fn (1::nat), Fn 2] = None" unfolding l by simp
  from decimate_by_hangs_iff [OF h n k1]
  have b: "decimate_by 1 [Fn (1::nat), Fn 2] \<noteq> None" unfolding l by simp
  from h n a b show ?thesis by blast
qed

lemma cleanup_loop_id:
  assumes "Null \<notin> set q"
  shows "cleanup_loop (length q - 1) q = q"
proof (rule nth_equalityI)
  show "length (cleanup_loop (length q - 1) q) = length q" by (rule cleanup_loop_length)
next
  fix j assume "j < length (cleanup_loop (length q - 1) q)"
  then have j: "j < length q" by (simp add: cleanup_loop_length)
  then have "q ! j \<noteq> Null" using assms nth_mem by metis
  then show "cleanup_loop (length q - 1) q ! j = q ! j"
    using cleanup_loop_nth [of "length q - 1" q j] j by simp
qed

lemma round_zero: "math_round (real n * cutoff 0 0 1) = 0"
  by (simp add: math_round_def cutoff_def)

lemma round_one: "nat (math_round (real n * cutoff 1 0 1)) = n"
proof -
  have "\<lfloor>real n + 1 / 2\<rfloor> = int n" by linarith
  then show ?thesis by (simp add: math_round_def cutoff_def)
qed

text \<open>
  Claim C5, as far as the code goes. \<open>decimate(0)\<close> leaves a queue of functions as it
  is, and so does \<open>decimate\<close> with any factor on a queue of at most one item. On a
  queue of two or more items \<open>decimate(1)\<close> does not rewrite anything: it never returns.
\<close>

theorem decimate_zero_short_and_one:
  "(Null \<notin> set (queue b) \<longrightarrow> decimate 0 b = Some b) \<and>
   (length (queue b) \<le> 1 \<longrightarrow> decimate factor b = Some b) \<and>
   (2 \<le> length (queue b) \<longrightarrow> decimate 1 b = None)"
proof (intro conjI impI)
  assume nn: "Null \<notin> set (queue b)"
  have "decimate_loop (queue b) 0 inc 0 0 = Some (queue b)" for inc
    by (subst decimate_loop.simps) simp
  then have "decimate_queue 0 (queue b) = Some (queue b)"
    using cleanup_loop_id [OF nn]
    by (simp add: decimate_queue_def decimate_by_def round_zero)
  then show "decimate 0 b = Some b" by (simp add: decimate_def)
next
  assume "length (queue b) \<le> 1"
  then show "decimate factor b = Some b" by (simp add: decimate_def decimate_queue_def)
next
  assume len: "2 \<le> length (queue b)"
  then have "0 < length (queue b)" by linarith
  with len have "decimate_queue 1 (queue b) = None"
    by (simp add: decimate_queue_def round_one decimate_by_def decimate_loop_all_never_returns)
  then show "decimate 1 b = None" by (simp add: decimate_def)
qed

theorem decimate_zero_short_and_one_witness:
  "Null \<notin> set [Fn (1::nat), Fn 2] \<and>
   decimate 0 \<lparr>queue = [Fn (1::nat), Fn 2], speed = Msec 35, timerid = None,
       active = False, intervals = [], next_handle = 1, executed = []\<rparr> =
     Some \<lparr>queue = [Fn 1, Fn 2], speed = Msec 35, timerid = None,
       active = False, intervals = [], next_handle = 1, executed = []\<rparr> \<and>
   length [Fn (1::nat)] \<le> 1 \<and>
   decimate (1 / 2) \<lparr>queue = [Fn (1::nat)], speed = Msec 35, timerid = None,
       active = False, intervals = [], next_handle = 1, executed = []\<rparr> =
     Some \<lparr>queue = [Fn 1], speed = Msec 35, timerid = None,
       active = False, intervals = [], next_handle = 1, executed = []\<rparr> \<and>
   2 \<le> length [Fn (1::nat), Fn 2] \<and>
   decimate 1 \<lparr>queue = [Fn (1::nat), Fn 2], speed = Msec 35, timerid = None,
       active = False, intervals = [], next_handle = 1, executed = []\<rparr> = None"
  using
    decimate_zero_short_and_one [of "\<lparr>queue = [Fn (1::nat), Fn 2], speed = Msec 35,
       timerid = None, active = False, intervals = [], next_handle = 1, executed = []\<rparr>"
       "1 / 2"]
    decimate_zero_short_and_one [of "\<lparr>queue = [Fn (1::nat)], speed = Msec 35,
       timerid = None, active = False, intervals = [], next_handle = 1, executed = []\<rparr>"
       "1 / 2"]
  by simp

section \<open>The idle timer\<close>

lemma fires_frame:
  "timeouts (foldl (\<lambda>s' tm. fire tm s') s tms) = filter (\<lambda>x. x \<notin> set tms) (timeouts s) \<and>
   triggers (foldl (\<lambda>s' tm. fire tm s') s tms) = triggers s \<and>
   next_timeout (foldl (\<lambda>s' tm. fire tm s') s tms) = next_timeout s"
proof (induction tms arbitrary: s)
  case Nil
  then show ?case by simp
next
  case (Cons tm tms)
  have "timeouts (fire tm s) = filter (\<lambda>x. x \<noteq> tm) (timeouts s)"
    and "triggers (fire tm s) = triggers s"
    and "next_timeout (fire tm s) = next_timeout s"
    by (auto simp: fire_def)
  with Cons.IH [of "fire tm s"] show ?case by (auto intro: filter_cong)
qed

lemma advance_frame:
  "(\<exists>P. timeouts (advance t s) = filter P (timeouts s)) \<and>
   triggers (advance t s) = triggers s \<and>
   next_timeout (advance t s) = next_timeout s \<and> now (advance t s) = t"
  using fires_frame [of s "sort_key snd (filter (\<lambda>(h, due). due \<le> t) (timeouts s))"]
  by (auto simp: advance_def)

lemma advance_inv: "single_inv s \<Longrightarrow> single_inv (advance t s)"
proof -
  assume inv: "single_inv s"
  from advance_frame [of t s] obtain P where
    P: "timeouts (advance t s) = filter P (timeouts s)"
    and tr: "triggers (advance t s) = triggers s"
    and nx: "next_timeout (advance t s) = next_timeout s"
    by blast
  from inv obtain tg where tg: "triggers s = [tg]"
    by (auto simp: single_inv_def split: list.splits)
  from inv tg have "timeouts s = [] \<or> (\<exists>h due. timeouts s = [(h, due)] \<and> t_timerid tg = Some h)"
    by (simp add: single_inv_def)
  then have "filter P (timeouts s) = [] \<or>
     (\<exists>h due. filter P (timeouts s) = [(h, due)] \<and> t_timerid tg = Some h)"
    by auto
  then show ?thesis using inv tg by (simp add: single_inv_def P tr nx)
qed

lemma activity_single:
  assumes "single_inv s"
  shows "single_inv (activity e s) \<and>
         (\<forall>t. triggers s = [t] \<and> e \<in> set (t_events t) \<longrightarrow>
            timeouts (activity e s) = [(next_timeout s, now s + t_idle t)] \<and>
            triggers (activity e s) = [t\<lparr>t_timerid := Some (next_timeout s)\<rparr>] \<and>
            thinking (activity e s) = Some TActive \<and>
            lastreset (activity e s) = Some (now s))"
proof -
  from assms obtain t where t: "triggers s = [t]"
    and sub: "timeouts s = [] \<or> (\<exists>h due. timeouts s = [(h, due)] \<and> t_timerid t = Some h)"
    and nz: "t_timerid t \<noteq> Some 0" "next_timeout s \<noteq> 0"
    by (auto simp: single_inv_def split: list.splits)
  show ?thesis
  proof (cases "e \<in> set (t_events t)")
    case False
    then have "activity e s = s" using t by (simp add: activity_def)
    then show ?thesis using assms t False by simp
  next
    case True
    have cleared: "filter (\<lambda>(h', due). h' \<noteq> x) (timeouts s) = []" if "t_timerid t = Some x" for x
      using sub that by auto
    have empty: "timeouts s = []" if "t_timerid t = None"
      using sub that by auto
    show ?thesis
    proof (cases "t_timerid t")
      case None
      then show ?thesis
        using True t nz empty
        by (simp add: activity_def resetTimeout_def truthy_id_def timeout_def Let_def
            single_inv_def)
    next
      case (Some x)
      with nz have "x \<noteq> 0" by simp
      then show ?thesis
        using True t nz Some cleared [OF Some]
        by (simp add: activity_def resetTimeout_def truthy_id_def timeout_def Let_def
            clearTimeout_def single_inv_def)
    qed
  qed
qed

lemma run_events_inv: "single_inv s \<Longrightarrow> single_inv (run_events evs s)"
proof (induction evs arbitrary: s)
  case Nil
  then show ?case by simp
next
  case (Cons ev evs)
  obtain t e where ev: "ev = (t, e)" by (cases ev)
  from Cons.prems have "single_inv (activity e (advance t s))"
    using advance_inv activity_single by blast
  from Cons.IH [OF this] show ?case by (simp add: ev)
qed

lemma start_fresh_inv: "single_inv (startThinking opts (fresh_subject t0))"
  by (simp add: single_inv_def startThinking_def fresh_subject_def)

lemma single_inv_one_timeout: "single_inv s \<Longrightarrow> length (timeouts s) \<le> 1"
  by (auto simp: single_inv_def split: list.splits)

lemma scenario_state:
  "run_events [(0, ''keydown''), (100, ''keydown''), (250, ''keydown'')]
     (startThinking \<lparr>idle = Some 200, events = None\<rparr> (fresh_subject 0)) =
   \<lparr>thinking = Some TActive, lastreset = Some 250, outstanding = Some [3],
     triggers =
       [\<lparr>t_events = [''keydown'', ''keypress'', ''mousedown''],
           t_idle = 200, t_timerid = Some 3\<rparr>],
     now = 250, timeouts = [(3, 450)], next_timeout = 4, notified = []\<rparr>"
  by code_simp

text \<open>
  Claim C4. With an idle delay of 200 ms and qualifying events at 0, 100 and 250 ms after
  one \<open>start\<close> on a fresh subject, the notifications fired up to any later time
  \<open>T\<close> are none before 450 ms and exactly one, at 450 ms, from then on; nothing
  fires at 300 ms. In general, after one \<open>start\<close> and any events at most one timer
  is pending, and a qualifying event at time \<open>t\<close> leaves exactly one pending timer,
  the new one, due at \<open>t\<close> plus the idle delay: the one it replaced is cancelled.
\<close>

theorem idle_fires_once:
  "(250 \<le> T \<longrightarrow>
      notified (advance T
        (run_events [(0, ''keydown''), (100, ''keydown''), (250, ''keydown'')]
           (startThinking \<lparr>idle = Some 200, events = None\<rparr> (fresh_subject 0)))) =
        (if 450 \<le> T then [450] else [])) \<and>
   length (timeouts (run_events evs (startThinking opts (fresh_subject t0)))) \<le> 1 \<and>
   (\<forall>tr. triggers (run_events evs (startThinking opts (fresh_subject t0))) = [tr] \<and>
         e \<in> set (t_events tr) \<longrightarrow>
      timeouts (activity e (advance t (run_events evs (startThinking opts (fresh_subject t0))))) =
        [(next_timeout (run_events evs (startThinking opts (fresh_subject t0))), t + t_idle tr)])"
proof (intro conjI impI allI)
  show "notified (advance T
        (run_events [(0, ''keydown''), (100, ''keydown''), (250, ''keydown'')]
           (startThinking \<lparr>idle = Some 200, events = None\<rparr> (fresh_subject 0)))) =
        (if 450 \<le> T then [450] else [])"
    unfolding scenario_state by (simp add: advance_def fire_def)
next
  let ?s = "run_events evs (startThinking opts (fresh_subject t0))"
  have inv: "single_inv ?s" by (rule run_events_inv [OF start_fresh_inv])
  then show "length (timeouts ?s) \<le> 1" by (rule single_inv_one_timeout)
  fix tr
  assume a: "triggers ?s = [tr] \<and> e \<in> set (t_events tr)"
  have fr: "triggers (advance t ?s) = [tr]" "next_timeout (advance t ?s) = next_timeout ?s"
    "now (advance t ?s) = t"
    using advance_frame [of t ?s] a by simp_all
  from activity_single [OF advance_inv [OF inv, of t], of e] fr a
  show "timeouts (activity e (advance t ?s)) = [(next_timeout ?s, t + t_idle tr)]"
    by simp
qed

theorem idle_fires_once_witness:
  "(250::nat) \<le> 300 \<and>
   notified (advance 300
        (run_events [(0, ''keydown''), (100, ''keydown''), (250, ''keydown'')]
           (startThinking \<lparr>idle = Some 200, events = None\<rparr> (fresh_subject 0)))) = [] \<and>
   (250::nat) \<le> 1000 \<and>
   notified (advance 1000
        (run_events [(0, ''keydown''), (100, ''keydown''), (250, ''keydown'')]
           (startThinking \<lparr>idle = Some 200, events = None\<rparr> (fresh_subject 0)))) = [450] \<and>
   triggers (run_events [(0, ''keydown'')]
      (startThinking \<lparr>idle = Some 200, events = None\<rparr> (fresh_subject 0))) =
     [\<lparr>t_events = [''keydown'', ''keypress'', ''mousedown''], t_idle = 200,
       t_timerid = Some 1\<rparr>] \<and>
   timeouts (activity ''keydown'' (advance 100 (run_events [(0, ''keydown'')]
      (startThinking \<lparr>idle = Some 200, events = None\<rparr> (fresh_subject 0))))) = [(2, 300)]"
proof -
  let ?opts = "\<lparr>idle = Some 200, events = None\<rparr>"
  let ?s = "run_events [(0, ''keydown'')] (startThinking ?opts (fresh_subject 0))"
  let ?tr = "\<lparr>t_events = [''keydown'', ''keypress'', ''mousedown''], t_idle = 200,
       t_timerid = Some 1\<rparr>"
  have s: "?s = \<lparr>thinking = Some TActive, lastreset = Some 0, outstanding = Some [1],
     triggers = [?tr], now = 0, timeouts = [(1, 200)], next_timeout = 2, notified = []\<rparr>"
    by code_simp
  have tr: "triggers ?s = [?tr]" and nx: "next_timeout ?s = 2" unfolding s by simp_all
  have k: "''keydown'' \<in> set (t_events ?tr)" by simp
  have a: "(250::nat) \<le> 300" and b: "(250::nat) \<le> 1000" by simp_all
  from idle_fires_once [of 300 "[(0, ''keydown'')]" ?opts 0 "''keydown''" 100] a
  have w1: "notified (advance 300
        (run_events [(0, ''keydown''), (100, ''keydown''), (250, ''keydown'')]
           (startThinking ?opts (fresh_subject 0)))) = []"
    by simp
  from idle_fires_once [of 1000 "[(0, ''keydown'')]" ?opts 0 "''keydown''" 100] b
  have w2: "notified (advance 1000
        (run_events [(0, ''keydown''), (100, ''keydown''), (250, ''keydown'')]
           (startThinking ?opts (fresh_subject 0)))) = [450]"
    by simp
  from idle_fires_once [of 300 "[(0, ''keydown'')]" ?opts 0 "''keydown''" 100]
  have "\<forall>tr. triggers ?s = [tr] \<and> ''keydown'' \<in> set (t_events tr) \<longrightarrow>
      timeouts (activity ''keydown'' (advance 100 ?s)) = [(next_timeout ?s, 100 + t_idle tr)]"
    by blast
  with tr k have "timeouts (activity ''keydown'' (advance 100 ?s)) =
      [(next_timeout ?s, 100 + t_idle ?tr)]"
    by blast
  then have w3: "timeouts (activity ''keydown'' (advance 100 ?s)) = [(2, 300)]"
    unfolding nx by simp
  show ?thesis using a b w1 w2 tr w3 by blast
qed

text \<open>
  Claim C9, as amended. \<open>start\<close> only binds the handler: the subject's state, its last
  reset time and the pending timers are what they were, so on a fresh subject
  \<open>running\<close> is \<open>false\<close> and \<open>elapsed\<close> is \<open>undefined\<close> until the first qualifying
  event. That event sets the state to active and records the time, so that
  \<open>running\<close> is \<open>true\<close> and \<open>elapsed\<close> is \<open>0\<close> right after it.
\<close>

theorem start_does_not_activate:
  "thinking (startThinking opts s) = thinking s \<and>
   lastreset (startThinking opts s) = lastreset s \<and>
   timeouts (startThinking opts s) = timeouts s \<and>
   command (startThinking opts (fresh_subject t0)) ''running'' o2 = Boolean False \<and>
   command (startThinking opts (fresh_subject t0)) ''elapsed'' o2 = Undefined \<and>
   (e \<in> set (case events opts of None \<Rightarrow> default_events | Some es \<Rightarrow> es) \<longrightarrow>
      command (activity e (startThinking opts (fresh_subject t0))) ''running'' o2 = Boolean True \<and>
      command (activity e (startThinking opts (fresh_subject t0))) ''elapsed'' o2 = Number 0 \<and>
      lastreset (activity e (startThinking opts (fresh_subject t0))) = Some t0)"
  by (simp add: startThinking_def fresh_subject_def command_def activity_def
      resetTimeout_def truthy_id_def timeout_def Let_def)

theorem start_does_not_activate_witness:
  "''keydown'' \<in> set default_events \<and>
   command (startThinking \<lparr>idle = Some 200, events = None\<rparr> (fresh_subject 7))
     ''running'' \<lparr>idle = None, events = None\<rparr> = Boolean False \<and>
   command (activity ''keydown'' (startThinking \<lparr>idle = Some 200, events = None\<rparr> (fresh_subject 7)))
     ''running'' \<lparr>idle = None, events = None\<rparr> = Boolean True \<and>
   command (activity ''keydown'' (startThinking \<lparr>idle = Some 200, events = None\<rparr> (fresh_subject 7)))
     ''elapsed'' \<lparr>idle = None, events = None\<rparr> = Number 0"
  using start_does_not_activate [of "\<lparr>idle = Some 200, events = None\<rparr>" "fresh_subject 7" 7
    "\<lparr>idle = None, events = None\<rparr>" "''keydown''"]
  by (simp add: default_events_def)

text \<open>
  The claim as stated has \<open>running()\<close> true and \<open>elapsed()\<close> defined right after
  \<open>start\<close>; on a fresh subject they are \<open>false\<close> and \<open>undefined\<close>.
\<close>

theorem running_after_start_counterexample:
  "command (startThinking \<lparr>idle = Some 200, events = None\<rparr> (fresh_subject 0))
     ''running'' \<lparr>idle = None, events = None\<rparr> = Boolean False \<and>
   command (startThinking \<lparr>idle = Some 200, events = None\<rparr> (fresh_subject 0))
     ''elapsed'' \<lparr>idle = None, events = None\<rparr> = Undefined \<and>
   thinking (startThinking \<lparr>idle = Some 200, events = None\<rparr> (fresh_subject 0)) \<noteq> Some TActive \<and>
   lastreset (startThinking \<lparr>idle = Some 200, events = None\<rparr> (fresh_subject 0)) = None"
  by (simp add: startThinking_def fresh_subject_def command_def)

end
